theory Spec2Isabelle
  imports Complex_Main
begin

section \<open>The pull-request tracker: status classification and the CI bar\<close>

text \<open>
  A shallow embedding of the pure part of \<open>extensions/pr-track/index.ts\<close>: the three
  status classifiers (\<open>ciProgressFromChecks\<close>, \<open>reviewFromDecision\<close>,
  \<open>mergeFromState\<close>), the record normaliser \<open>normalizePr\<close>, and the slot
  allocation and rendering of the CI bar inside \<open>renderWidget\<close> (\<open>ciBadge\<close>).

  Conventions of the embedding:
  \<^item> an optional field (\<open>status?: string\<close>, \<open>mergedAt?: string | null\<close>) is an
    \<open>option\<close>; \<open>undefined\<close> and \<open>null\<close> are both \<open>None\<close>, since the code
    only tests such fields for truthiness;
  \<^item> strings are ASCII character lists and \<open>toUpperCase\<close> maps \<open>a\<close>..\<open>z\<close> to
    \<open>A\<close>..\<open>Z\<close>;
  \<^item> the counts of a tally and the slots of the bar are integers; the value that
    double-precision arithmetic gives to a quotient \<open>(count / total) * width\<close> is a
    parameter of the allocation, and the exact quotient is one instance of it;
  \<^item> a mutated local variable is passed and returned; a \<open>for\<close> loop over an array is a
    recursion over the list, a \<open>while\<close> loop a recursion with a termination proof.
\<close>

subsection \<open>Types\<close>

datatype CiStatus = CiPass | CiFail | CiPending | CiNone | CiUnknown

datatype ReviewStatus = ReviewApproved | ReviewChanges | ReviewPending | ReviewUnknown

datatype MergeStatus = Merged | MergeOpen | MergeClosed | MergeDraft | MergeUnknown

record CiProgress =
  total :: int
  passed :: int
  failed :: int
  pending :: int
  status :: CiStatus

text \<open>One entry of \<open>statusCheckRollup\<close>.\<close>

record Check =
  status :: "string option"
  conclusion :: "string option"

record GhPrView =
  number :: int
  title :: string
  url :: string
  headRefName :: "string option"
  state :: "string option"
  isDraft :: "bool option"
  mergedAt :: "string option"
  reviewDecision :: "string option"
  statusCheckRollup :: "Check list option"

record PrRecord =
  number :: int
  url :: string
  title :: string
  headRefName :: "string option"
  state :: "string option"
  isDraft :: "bool option"
  mergedAt :: "string option"
  reviewDecision :: "string option"
  ci :: CiStatus
  ciProgress :: "CiProgress option"
  review :: ReviewStatus
  merge :: MergeStatus
  lastCheckedAt :: "string option"
  error :: "string option"

subsection \<open>Strings and truthiness\<close>

definition toUpperChar :: "char \<Rightarrow> char" where
  "toUpperChar c =
     (case map_of (zip ''abcdefghijklmnopqrstuvwxyz'' ''ABCDEFGHIJKLMNOPQRSTUVWXYZ'') c of
        Some u \<Rightarrow> u
      | None \<Rightarrow> c)"

definition toUpperCase :: "string \<Rightarrow> string" where
  "toUpperCase s = map toUpperChar s"

text \<open>\<open>x || ""\<close> on an optional string.\<close>

definition orEmpty :: "string option \<Rightarrow> string" where
  "orEmpty x = (case x of None \<Rightarrow> [] | Some s \<Rightarrow> s)"

text \<open>Truthiness of an optional string: present and not the empty string.\<close>

definition truthyStr :: "string option \<Rightarrow> bool" where
  "truthyStr x = (case x of None \<Rightarrow> False | Some s \<Rightarrow> s \<noteq> [])"

text \<open>Truthiness of an optional boolean.\<close>

definition truthyBool :: "bool option \<Rightarrow> bool" where
  "truthyBool x = (case x of None \<Rightarrow> False | Some b \<Rightarrow> b)"

subsection \<open>\<open>ciProgressFromChecks\<close>\<close>

definition failureConclusions :: "string list" where
  "failureConclusions =
     [''FAILURE'', ''TIMED_OUT'', ''CANCELLED'', ''ACTION_REQUIRED'', ''STARTUP_FAILURE'', ''ERROR'']"

definition successConclusions :: "string list" where
  "successConclusions = [''SUCCESS'', ''NEUTRAL'', ''SKIPPED'']"

text \<open>
  The body of the loop over the checks, on the three counters
  \<open>(passed, failed, pending)\<close>.
\<close>

fun checkStep :: "Check \<Rightarrow> int \<times> int \<times> int \<Rightarrow> int \<times> int \<times> int" where
  "checkStep check (p, f, q) =
     (let st = toUpperCase (orEmpty (Check.status check));
          co = toUpperCase (orEmpty (Check.conclusion check));
          isCompleted = (st = ''COMPLETED'' \<or> (st = [] \<and> co \<noteq> []))
      in if \<not> isCompleted then (p, f, q + 1)
         else if co \<in> set failureConclusions then (p, f + 1, q)
         else if co = [] then (p, f, q + 1)
         else if co \<in> set successConclusions then (p + 1, f, q)
         else (p, f + 1, q))"

fun checksLoop :: "Check list \<Rightarrow> int \<times> int \<times> int \<Rightarrow> int \<times> int \<times> int" where
  "checksLoop [] acc = acc"
| "checksLoop (check # rest) acc = checksLoop rest (checkStep check acc)"

definition ciProgressFromChecks :: "Check list option \<Rightarrow> CiProgress" where
  "ciProgressFromChecks checks =
     (case checks of
        None \<Rightarrow> \<lparr>total = 0, passed = 0, failed = 0, pending = 0, status = CiNone\<rparr>
      | Some cs \<Rightarrow>
          if length cs = 0
          then \<lparr>total = 0, passed = 0, failed = 0, pending = 0, status = CiNone\<rparr>
          else (case checksLoop cs (0, 0, 0) of
                  (p, f, q) \<Rightarrow>
                    \<lparr>total = p + f + q, passed = p, failed = f, pending = q,
                     status = (if f > 0 then CiFail else if q > 0 then CiPending else CiPass)\<rparr>))"

subsection \<open>\<open>ciProgressFromRecord\<close>, \<open>reviewFromDecision\<close>, \<open>mergeFromState\<close>, \<open>normalizePr\<close>\<close>

definition ciProgressFromRecord :: "PrRecord \<Rightarrow> CiProgress" where
  "ciProgressFromRecord pr =
     (case ciProgress pr of
        Some p \<Rightarrow> p
      | None \<Rightarrow>
          (case ci pr of
             CiPass \<Rightarrow> \<lparr>total = 1, passed = 1, failed = 0, pending = 0, status = CiPass\<rparr>
           | CiFail \<Rightarrow> \<lparr>total = 1, passed = 0, failed = 1, pending = 0, status = CiFail\<rparr>
           | CiPending \<Rightarrow> \<lparr>total = 1, passed = 0, failed = 0, pending = 1, status = CiPending\<rparr>
           | CiNone \<Rightarrow> \<lparr>total = 0, passed = 0, failed = 0, pending = 0, status = CiNone\<rparr>
           | CiUnknown \<Rightarrow> \<lparr>total = 0, passed = 0, failed = 0, pending = 0, status = CiUnknown\<rparr>))"

definition reviewFromDecision :: "string option \<Rightarrow> MergeStatus option \<Rightarrow> ReviewStatus" where
  "reviewFromDecision decision mrg =
     (if mrg = Some Merged then ReviewApproved
      else let v = toUpperCase (orEmpty decision)
           in if v = ''APPROVED'' then ReviewApproved
              else if v = ''CHANGES_REQUESTED'' then ReviewChanges
              else if v = ''REVIEW_REQUIRED'' then ReviewPending
              else ReviewUnknown)"

definition mergeFromState :: "GhPrView \<Rightarrow> MergeStatus" where
  "mergeFromState pr =
     (if truthyStr (GhPrView.mergedAt pr) \<or> toUpperCase (orEmpty (GhPrView.state pr)) = ''MERGED''
      then Merged
      else if truthyBool (GhPrView.isDraft pr) then MergeDraft
      else let st = toUpperCase (orEmpty (GhPrView.state pr))
           in if st = ''OPEN'' then MergeOpen
              else if st = ''CLOSED'' then MergeClosed
              else MergeUnknown)"

text \<open>\<open>now\<close> stands for \<open>new Date().toISOString()\<close>.\<close>

definition normalizePr :: "string \<Rightarrow> GhPrView \<Rightarrow> PrRecord" where
  "normalizePr now d =
     (let mrg = mergeFromState d;
          prog = ciProgressFromChecks (GhPrView.statusCheckRollup d)
      in \<lparr>PrRecord.number = GhPrView.number d,
          PrRecord.url = GhPrView.url d,
          PrRecord.title = GhPrView.title d,
          PrRecord.headRefName = GhPrView.headRefName d,
          PrRecord.state = GhPrView.state d,
          PrRecord.isDraft = GhPrView.isDraft d,
          PrRecord.mergedAt = GhPrView.mergedAt d,
          PrRecord.reviewDecision = GhPrView.reviewDecision d,
          ci = CiProgress.status prog,
          ciProgress = Some prog,
          review = reviewFromDecision (GhPrView.reviewDecision d) (Some mrg),
          merge = mrg,
          lastCheckedAt = Some now,
          error = None\<rparr>)"

subsection \<open>The CI bar: slot allocation in \<open>ciBadge\<close>\<close>

text \<open>The keys \<open>"pass" | "fail" | "pending"\<close> of the remainder list and of \<open>borrowSlot\<close>.\<close>

datatype SlotKey = KeyPass | KeyFail | KeyPending

text \<open>The three local variables \<open>passSlots\<close>, \<open>failSlots\<close>, \<open>pendingSlots\<close>.\<close>

record Slots =
  passSlots :: int
  failSlots :: int
  pendingSlots :: int

definition slotSum :: "Slots \<Rightarrow> int" where
  "slotSum s = passSlots s + failSlots s + pendingSlots s"

text \<open>
  The quotient \<open>(count / progress.total) * width\<close>. The code computes it in double
  precision, and the computed value can differ from the exact quotient in the last place.
  The allocation therefore takes the computed value as a parameter \<open>sh\<close>, a function of
  the count, the total and the width; \<open>share\<close> is the exact quotient. The other
  operations of the allocation on these numbers are exact on doubles (\<open>Math.floor\<close>,
  the remainder \<open>x - floor x\<close> of a non-negative number, the sign of a difference), so
  they are the operations on the reals.
\<close>

type_synonym quotient = "int \<Rightarrow> int \<Rightarrow> int \<Rightarrow> real"

definition share :: quotient where
  "share c t width = (of_int c / of_int t) * of_int width"

definition floorSlots :: "quotient \<Rightarrow> CiProgress \<Rightarrow> int \<Rightarrow> Slots" where
  "floorSlots sh p width =
     \<lparr>passSlots = \<lfloor>sh (passed p) (total p) width\<rfloor>,
      failSlots = \<lfloor>sh (failed p) (total p) width\<rfloor>,
      pendingSlots = \<lfloor>sh (pending p) (total p) width\<rfloor>\<rparr>"

text \<open>
  \<open>Array.prototype.sort\<close> with a comparator: the sort is stable, an element \<open>x\<close>
  stays before \<open>y\<close> unless \<open>cmp x y > 0\<close>. For a consistent comparator every stable
  sort returns the same array; insertion from the right is one.
\<close>

fun insertByCmp :: "('a \<Rightarrow> 'a \<Rightarrow> real) \<Rightarrow> 'a \<Rightarrow> 'a list \<Rightarrow> 'a list" where
  "insertByCmp cmp x [] = [x]"
| "insertByCmp cmp x (y # ys) =
     (if cmp x y \<le> 0 then x # y # ys else y # insertByCmp cmp x ys)"

definition sortByCmp :: "('a \<Rightarrow> 'a \<Rightarrow> real) \<Rightarrow> 'a list \<Rightarrow> 'a list" where
  "sortByCmp cmp xs = foldr (insertByCmp cmp) xs []"

text \<open>The array \<open>fractions\<close>: each item is \<open>(key, frac)\<close>, sorted by \<open>b.frac - a.frac\<close>.\<close>

definition fractions :: "quotient \<Rightarrow> CiProgress \<Rightarrow> int \<Rightarrow> Slots \<Rightarrow> (SlotKey \<times> real) list" where
  "fractions sh p width s =
     sortByCmp (\<lambda>a b. snd b - snd a)
       [(KeyPass, sh (passed p) (total p) width - of_int (passSlots s)),
        (KeyFail, sh (failed p) (total p) width - of_int (failSlots s)),
        (KeyPending, sh (pending p) (total p) width - of_int (pendingSlots s))]"

text \<open>The three \<open>if (item.key === ...)\<close> statements of the distribution loop.\<close>

definition addSlot :: "SlotKey \<Rightarrow> Slots \<Rightarrow> Slots" where
  "addSlot k s =
     (let s1 = (if k = KeyPass then s\<lparr>passSlots := passSlots s + 1\<rparr> else s);
          s2 = (if k = KeyFail then s1\<lparr>failSlots := failSlots s1 + 1\<rparr> else s1)
      in if k = KeyPending then s2\<lparr>pendingSlots := pendingSlots s2 + 1\<rparr> else s2)"

text \<open>\<open>for (const item of fractions)\<close>, on the slots and the counter \<open>used\<close>.\<close>

fun distribute :: "int \<Rightarrow> (SlotKey \<times> real) list \<Rightarrow> Slots \<times> int \<Rightarrow> Slots \<times> int" where
  "distribute width [] (s, used) = (s, used)"
| "distribute width (item # rest) (s, used) =
     (if used \<ge> width then (s, used)
      else distribute width rest (addSlot (fst item) s, used + 1))"

definition borrowSlot :: "CiProgress \<Rightarrow> SlotKey \<Rightarrow> Slots \<Rightarrow> Slots" where
  "borrowSlot p target s0 =
     (let s1 =
        (if target = KeyFail \<and> failed p > 0 \<and> failSlots s0 = 0 then
           (let d = (if pendingSlots s0 > 1 then s0\<lparr>pendingSlots := pendingSlots s0 - 1\<rparr>
                     else if passSlots s0 > 1 then s0\<lparr>passSlots := passSlots s0 - 1\<rparr>
                     else if pendingSlots s0 > 0 then s0\<lparr>pendingSlots := pendingSlots s0 - 1\<rparr>
                     else if passSlots s0 > 0 then s0\<lparr>passSlots := passSlots s0 - 1\<rparr>
                     else s0)
            in d\<lparr>failSlots := failSlots d + 1\<rparr>)
         else s0);
          s2 =
        (if target = KeyPending \<and> pending p > 0 \<and> pendingSlots s1 = 0 then
           (let d = (if passSlots s1 > 1 then s1\<lparr>passSlots := passSlots s1 - 1\<rparr>
                     else if failSlots s1 > 1 then s1\<lparr>failSlots := failSlots s1 - 1\<rparr>
                     else if passSlots s1 > 0 then s1\<lparr>passSlots := passSlots s1 - 1\<rparr>
                     else if failSlots s1 > 0 then s1\<lparr>failSlots := failSlots s1 - 1\<rparr>
                     else s1)
            in d\<lparr>pendingSlots := pendingSlots d + 1\<rparr>)
         else s1)
      in
        (if target = KeyPass \<and> passed p > 0 \<and> passSlots s2 = 0 then
           (let d = (if pendingSlots s2 > 1 then s2\<lparr>pendingSlots := pendingSlots s2 - 1\<rparr>
                     else if failSlots s2 > 1 then s2\<lparr>failSlots := failSlots s2 - 1\<rparr>
                     else if pendingSlots s2 > 0 then s2\<lparr>pendingSlots := pendingSlots s2 - 1\<rparr>
                     else if failSlots s2 > 0 then s2\<lparr>failSlots := failSlots s2 - 1\<rparr>
                     else s2)
            in d\<lparr>passSlots := passSlots d + 1\<rparr>)
         else s2))"

text \<open>The first \<open>while\<close> loop: shrink while the slots exceed the width.\<close>

function shrinkLoop :: "int \<Rightarrow> Slots \<Rightarrow> Slots" where
  "shrinkLoop width s =
     (if passSlots s + failSlots s + pendingSlots s > width then
        (if pendingSlots s > 1 then shrinkLoop width (s\<lparr>pendingSlots := pendingSlots s - 1\<rparr>)
         else if passSlots s > 1 then shrinkLoop width (s\<lparr>passSlots := passSlots s - 1\<rparr>)
         else if failSlots s > 1 then shrinkLoop width (s\<lparr>failSlots := failSlots s - 1\<rparr>)
         else s)
      else s)"
  by pat_completeness auto
termination
  by (relation "measure (\<lambda>(width, s). nat (passSlots s + failSlots s + pendingSlots s - width))")
     auto

text \<open>The second \<open>while\<close> loop: grow while the slots fall short of the width.\<close>

function growLoop :: "CiProgress \<Rightarrow> int \<Rightarrow> Slots \<Rightarrow> Slots" where
  "growLoop p width s =
     (if passSlots s + failSlots s + pendingSlots s < width then
        (if pending p > 0 then growLoop p width (s\<lparr>pendingSlots := pendingSlots s + 1\<rparr>)
         else if passed p > 0 then growLoop p width (s\<lparr>passSlots := passSlots s + 1\<rparr>)
         else growLoop p width (s\<lparr>failSlots := failSlots s + 1\<rparr>))
      else s)"
  by pat_completeness auto
termination
  by (relation "measure (\<lambda>(p, width, s). nat (width - (passSlots s + failSlots s + pendingSlots s)))")
     auto

text \<open>The slots after the distribution loop.\<close>

definition baseline :: "quotient \<Rightarrow> CiProgress \<Rightarrow> int \<Rightarrow> Slots" where
  "baseline sh p width =
     (let s0 = floorSlots sh p width;
          items = fractions sh p width s0
      in fst (distribute width items (s0, passSlots s0 + failSlots s0 + pendingSlots s0)))"

text \<open>
  The statements of \<open>ciBadge\<close> from the floors to the end of the second \<open>while\<close>
  loop, with the local constant \<open>width\<close> as a parameter.
\<close>

definition allocateSlots :: "quotient \<Rightarrow> CiProgress \<Rightarrow> int \<Rightarrow> Slots" where
  "allocateSlots sh p width =
     (let s1 = baseline sh p width;
          s2 = borrowSlot p KeyFail s1;
          s3 = borrowSlot p KeyPending s2;
          s4 = borrowSlot p KeyPass s3;
          s5 = shrinkLoop width s4
      in growLoop p width s5)"

text \<open>
  The slots that \<open>ciBadge\<close> computes: none when \<open>progress.total === 0\<close>, where the
  function returns before the slot variables exist.
\<close>

definition ciSlots :: "quotient \<Rightarrow> CiProgress \<Rightarrow> int \<Rightarrow> Slots option" where
  "ciSlots sh p width = (if total p = 0 then None else Some (allocateSlots sh p width))"

text \<open>
  The three calls of \<open>borrowSlot\<close> in \<open>ciBadge\<close>, each with its target and the
  slots at the time of the call.
\<close>

definition borrowCalls :: "quotient \<Rightarrow> CiProgress \<Rightarrow> int \<Rightarrow> (SlotKey \<times> Slots) list" where
  "borrowCalls sh p width =
     (let s1 = baseline sh p width;
          s2 = borrowSlot p KeyFail s1;
          s3 = borrowSlot p KeyPending s2
      in [(KeyFail, s1), (KeyPending, s2), (KeyPass, s3)])"

subsection \<open>Rendering\<close>

datatype error = RangeError

text \<open>\<open>String.prototype.repeat\<close> of a one-character string: a negative count throws.\<close>

definition repeatChar :: "char \<Rightarrow> int \<Rightarrow> error + string" where
  "repeatChar c n = (if n < 0 then Inl RangeError else Inr (replicate (nat n) c))"

text \<open>An integer in a template literal: its decimal digits.\<close>

function showNat :: "nat \<Rightarrow> string" where
  "showNat n =
     (if n < 10 then [''0123456789'' ! n]
      else showNat (n div 10) @ [''0123456789'' ! (n mod 10)])"
  by pat_completeness auto
termination
  by (relation "measure id") auto

definition showInt :: "int \<Rightarrow> string" where
  "showInt i = (if i < 0 then CHR ''-'' # showNat (nat (- i)) else showNat (nat i))"

text \<open>
  \<open>ciBadge\<close>; \<open>fg\<close> is the theme's colouring function \<open>t.fg\<close>, which the host
  supplies, and \<open>sh\<close> the computed quotient.
\<close>

definition ciBadge ::
  "(string \<Rightarrow> string \<Rightarrow> string) \<Rightarrow> quotient \<Rightarrow> PrRecord \<Rightarrow> error + string" where
  "ciBadge fg sh pr =
     (let progress = ciProgressFromRecord pr;
          width = 7
      in case ciSlots sh progress width of
           None \<Rightarrow> Inr (fg ''dim'' ''CI:[-------]'' @ '' '' @ fg ''dim'' ''no checks'')
         | Some s \<Rightarrow>
            (case repeatChar CHR ''='' (passSlots s) of Inl e \<Rightarrow> Inl e | Inr ps \<Rightarrow>
             case repeatChar CHR ''!'' (failSlots s) of Inl e \<Rightarrow> Inl e | Inr fs \<Rightarrow>
             case repeatChar CHR ''~'' (pendingSlots s) of Inl e \<Rightarrow> Inl e | Inr qs \<Rightarrow>
               (let bar = fg ''dim'' ''CI:['' @ fg ''success'' ps @ fg ''error'' fs
                            @ fg ''warning'' qs @ fg ''dim'' '']''
                in if failed progress > 0 then
                     Inr (bar @ '' '' @ fg ''error''
                       (showInt (passed progress) @ ''/'' @ showInt (total progress)
                        @ '' +'' @ showInt (failed progress) @ '' fail''
                        @ (if failed progress = 1 then [] else ''s'')
                        @ (if pending progress > 0
                           then '' ('' @ showInt (pending progress) @ '' waiting)''
                           else [])))
                   else if pending progress > 0 then
                     Inr (bar @ '' '' @ fg ''warning''
                       (showInt (passed progress) @ ''/'' @ showInt (total progress)
                        @ '' waiting ('' @ showInt (pending progress) @ '')''))
                   else
                     Inr (bar @ '' '' @ fg ''success''
                       (showInt (passed progress) @ ''/'' @ showInt (total progress)
                        @ '' pass'')))))"

text \<open>
  The theme of the test stubs, \<open>fg: (_token, value) => value\<close>: no colouring.
\<close>

definition plain :: "string \<Rightarrow> string \<Rightarrow> string" where
  "plain token v = v"

subsection \<open>Definitions that follow the specification's wording\<close>

text \<open>
  The status that the specification derives from the counts of a tally: \<open>fail\<close> if
  \<open>failed > 0\<close>, else \<open>pending\<close> if \<open>pending > 0\<close>, else \<open>pass\<close> if
  \<open>total > 0\<close>, else \<open>none\<close>.
\<close>

definition specDerivedStatus :: "CiProgress \<Rightarrow> CiStatus" where
  "specDerivedStatus p =
     (if failed p > 0 then CiFail
      else if pending p > 0 then CiPending
      else if total p > 0 then CiPass
      else CiNone)"

text \<open>
  The number of categories with a nonzero raw count, which the specification compares
  with the width.
\<close>

definition nonzeroCategories :: "CiProgress \<Rightarrow> int" where
  "nonzeroCategories p =
     (if passed p \<noteq> 0 then 1 else 0) + (if failed p \<noteq> 0 then 1 else 0)
     + (if pending p \<noteq> 0 then 1 else 0)"

subsection \<open>Notions used in the statements\<close>



definition slotsNonneg :: "Slots \<Rightarrow> bool" where
  "slotsNonneg s = (0 \<le> passSlots s \<and> 0 \<le> failSlots s \<and> 0 \<le> pendingSlots s)"

text \<open>\<open>a\<close> occurs in \<open>xs\<close> before the first \<open>b\<close>.\<close>

definition precedes :: "'a \<Rightarrow> 'a \<Rightarrow> 'a list \<Rightarrow> bool" where
  "precedes a b xs = (a \<in> set (takeWhile (\<lambda>x. x \<noteq> b) xs))"

text \<open>
  The slots that a rendered badge shows: the numbers of pass glyphs \<open>=\<close>, fail glyphs
  \<open>!\<close> and pending glyphs \<open>~\<close> in the text.
\<close>

definition glyphSlots :: "string \<Rightarrow> Slots" where
  "glyphSlots out =
     \<lparr>passSlots = int (count_list out CHR ''=''),
      failSlots = int (count_list out CHR ''!''),
      pendingSlots = int (count_list out CHR ''~'')\<rparr>"

subsection \<open>Example inputs\<close>

text \<open>The tally with the given counts of passed, failed and pending checks.\<close>

definition tally :: "int \<Rightarrow> int \<Rightarrow> int \<Rightarrow> CiProgress" where
  "tally a b c =
     \<lparr>total = a + b + c, passed = a, failed = b, pending = c,
      status = (if b > 0 then CiFail else if c > 0 then CiPending
                else if a + b + c > 0 then CiPass else CiNone)\<rparr>"

text \<open>The answer of \<open>gh pr view\<close> for a pull request without checks.\<close>

definition noChecksView :: GhPrView where
  "noChecksView =
     \<lparr>GhPrView.number = 42, title = ''Ship tracker tests'',
      url = ''https://github.com/acme/repo/pull/42'', headRefName = Some ''feature/42'',
      state = Some ''OPEN'', isDraft = Some False, mergedAt = None,
      reviewDecision = Some ''REVIEW_REQUIRED'', statusCheckRollup = Some []\<rparr>"

text \<open>
  A record as an earlier version of the tracker may have stored it: no \<open>ciProgress\<close>
  field, and \<open>ci\<close> unknown.
\<close>

definition unknownCiRecord :: PrRecord where
  "unknownCiRecord =
     \<lparr>PrRecord.number = 1, url = ''https://github.com/acme/repo/pull/1'', title = ''t'',
      headRefName = None, state = None, isDraft = None, mergedAt = None, reviewDecision = None,
      ci = CiUnknown, ciProgress = None, review = ReviewUnknown, merge = MergeUnknown,
      lastCheckedAt = None, error = None\<rparr>"

text \<open>
  The equations of the loops are unfolded by hand in the proofs below.
\<close>

declare shrinkLoop.simps [simp del] growLoop.simps [simp del] showNat.simps [simp del]

section \<open>Properties of the classifier\<close>

lemma toUpperCase_Nil_iff: "toUpperCase s = [] \<longleftrightarrow> s = []"
  by (simp add: toUpperCase_def)

lemma toUpperCase_Nil: "toUpperCase [] = []"
  by (simp add: toUpperCase_def)

lemma checkStep_cases:
  "checkStep c (p, f, q) = (p + 1, f, q) \<or> checkStep c (p, f, q) = (p, f + 1, q)
   \<or> checkStep c (p, f, q) = (p, f, q + 1)"
  by (simp add: Let_def)

lemma checkStep_sum:
  "checkStep c (p, f, q) = (p', f', q') \<Longrightarrow> p' + f' + q' = p + f + q + 1"
  using checkStep_cases [of c p f q] by auto

lemma checksLoop_sum:
  "checksLoop cs (p, f, q) = (p', f', q') \<Longrightarrow> p' + f' + q' = p + f + q + int (length cs)"
proof (induction cs arbitrary: p f q)
  case Nil
  then show ?case by simp
next
  case (Cons c cs)
  obtain a b d where st: "checkStep c (p, f, q) = (a, b, d)"
    by (cases "checkStep c (p, f, q)") auto
  from Cons.prems st have "checksLoop cs (a, b, d) = (p', f', q')" by simp
  from Cons.IH [OF this] checkStep_sum [OF st] show ?case by simp
qed

text \<open>
  Claim C4. For every input of \<open>ciProgressFromChecks\<close> the tally satisfies
  \<open>total = passed + failed + pending\<close>; for every check sequence \<open>cs\<close>, the empty one
  included, \<open>total\<close> is the length of \<open>cs\<close>; and the loop body adds one to exactly one
  of the three counters.
\<close>

theorem ciProgressFromChecks_total:
  "total (ciProgressFromChecks checks)
     = passed (ciProgressFromChecks checks) + failed (ciProgressFromChecks checks)
       + pending (ciProgressFromChecks checks)
   \<and> total (ciProgressFromChecks (Some cs)) = int (length cs)
   \<and> (checkStep c (p, f, q) = (p + 1, f, q) \<or> checkStep c (p, f, q) = (p, f + 1, q)
      \<or> checkStep c (p, f, q) = (p, f, q + 1))"
proof -
  have a: "total (ciProgressFromChecks checks)
     = passed (ciProgressFromChecks checks) + failed (ciProgressFromChecks checks)
       + pending (ciProgressFromChecks checks)"
    by (simp add: ciProgressFromChecks_def split: option.splits prod.splits)
  have b: "total (ciProgressFromChecks (Some cs)) = int (length cs)"
  proof (cases "checksLoop cs (0, 0, 0)")
    case (fields p' f' q')
    from checksLoop_sum [OF fields] fields show ?thesis
      by (simp add: ciProgressFromChecks_def)
  qed
  from a b checkStep_cases [of c p f q] show ?thesis by blast
qed

lemma specDerivedStatus_fromChecks:
  "CiProgress.status (ciProgressFromChecks checks) = specDerivedStatus (ciProgressFromChecks checks)"
proof (cases checks)
  case None
  then show ?thesis by (simp add: ciProgressFromChecks_def specDerivedStatus_def)
next
  case (Some cs)
  show ?thesis
  proof (cases "checksLoop cs (0, 0, 0)")
    case (fields p' f' q')
    from checksLoop_sum [OF fields] have "p' + f' + q' = int (length cs)" by simp
    with fields Some show ?thesis
      by (auto simp add: ciProgressFromChecks_def specDerivedStatus_def)
  qed
qed

text \<open>
  Claim C5, as stated, fails: for a record without a stored tally whose \<open>ci\<close> is unknown,
  the \<open>default\<close> branch of \<open>ciProgressFromRecord\<close> builds a tally with all counts zero
  and status \<open>unknown\<close>, where the derived status is \<open>none\<close>.
\<close>

theorem ciProgress_status_counterexample:
  "CiProgress.status (ciProgressFromRecord unknownCiRecord)
     \<noteq> specDerivedStatus (ciProgressFromRecord unknownCiRecord)"
  by (simp add: ciProgressFromRecord_def unknownCiRecord_def specDerivedStatus_def)

text \<open>
  Claim C5, amended. The tally of \<open>ciProgressFromChecks\<close> has the derived status, and so
  has the tally of a record made by \<open>normalizePr\<close>. \<open>ciProgressFromRecord\<close> returns a
  stored tally unchanged; for a record without one it builds a tally with the derived status
  when \<open>ci\<close> is pass, fail, pending or none, and the all-zero tally with status
  \<open>unknown\<close> when \<open>ci\<close> is unknown.
\<close>

theorem ciProgress_status_derived:
  "CiProgress.status (ciProgressFromChecks checks) = specDerivedStatus (ciProgressFromChecks checks)
   \<and> CiProgress.status (ciProgressFromRecord (normalizePr now d))
       = specDerivedStatus (ciProgressFromRecord (normalizePr now d))
   \<and> (ciProgress pr = None \<and> ci pr \<noteq> CiUnknown \<longrightarrow>
        CiProgress.status (ciProgressFromRecord pr) = specDerivedStatus (ciProgressFromRecord pr))
   \<and> (ciProgress pr = None \<and> ci pr = CiUnknown \<longrightarrow>
        ciProgressFromRecord pr
          = \<lparr>total = 0, passed = 0, failed = 0, pending = 0, status = CiUnknown\<rparr>)
   \<and> (ciProgress pr = Some stored \<longrightarrow> ciProgressFromRecord pr = stored)"
proof -
  have n: "ciProgressFromRecord (normalizePr now d)
             = ciProgressFromChecks (GhPrView.statusCheckRollup d)"
    by (simp add: ciProgressFromRecord_def normalizePr_def Let_def)
  have r: "ciProgress pr = None \<and> ci pr \<noteq> CiUnknown \<longrightarrow>
        CiProgress.status (ciProgressFromRecord pr) = specDerivedStatus (ciProgressFromRecord pr)"
    by (cases "ci pr") (simp_all add: ciProgressFromRecord_def specDerivedStatus_def)
  have u: "ciProgress pr = None \<and> ci pr = CiUnknown \<longrightarrow>
        ciProgressFromRecord pr
          = \<lparr>total = 0, passed = 0, failed = 0, pending = 0, status = CiUnknown\<rparr>"
    by (simp add: ciProgressFromRecord_def)
  have s: "ciProgress pr = Some stored \<longrightarrow> ciProgressFromRecord pr = stored"
    by (simp add: ciProgressFromRecord_def)
  from n r u s specDerivedStatus_fromChecks show ?thesis by simp
qed

text \<open>
  The amended C5 at three records: one without a stored tally and \<open>ci\<close> fail, one without
  a stored tally and \<open>ci\<close> unknown, one with a stored tally.
\<close>

theorem ciProgress_status_derived_witness:
  "ciProgress (unknownCiRecord\<lparr>ci := CiFail\<rparr>) = None
   \<and> ci (unknownCiRecord\<lparr>ci := CiFail\<rparr>) \<noteq> CiUnknown
   \<and> CiProgress.status (ciProgressFromRecord (unknownCiRecord\<lparr>ci := CiFail\<rparr>)) = CiFail
   \<and> specDerivedStatus (ciProgressFromRecord (unknownCiRecord\<lparr>ci := CiFail\<rparr>)) = CiFail
   \<and> ciProgress unknownCiRecord = None \<and> ci unknownCiRecord = CiUnknown
   \<and> ciProgressFromRecord unknownCiRecord
       = \<lparr>total = 0, passed = 0, failed = 0, pending = 0, status = CiUnknown\<rparr>
   \<and> ciProgressFromRecord (unknownCiRecord\<lparr>ciProgress := Some (ciProgressFromChecks None)\<rparr>)
       = ciProgressFromChecks None"
  using
    ciProgress_status_derived [of None undefined undefined
       "unknownCiRecord\<lparr>ci := CiFail\<rparr>" undefined]
    ciProgress_status_derived [of None undefined undefined unknownCiRecord undefined]
    ciProgress_status_derived [of None undefined undefined
       "unknownCiRecord\<lparr>ciProgress := Some (ciProgressFromChecks None)\<rparr>"
       "ciProgressFromChecks None"]
  by (simp add: unknownCiRecord_def ciProgressFromRecord_def)

text \<open>
  Claim C6. The loop body buckets a check as the specification says. With the uppercased
  status and conclusion: the check is completed iff the uppercased status is \<open>COMPLETED\<close>,
  or the status is empty (absent or \<open>""\<close>) and the conclusion is not; a check that is not
  completed counts as pending; a completed check with an empty conclusion counts as pending;
  one whose conclusion is in the failure list counts as failed; one whose conclusion is in
  the success list counts as passed; any other completed check counts as failed.
\<close>

theorem checkStep_buckets:
  "checkStep check (p, f, q) =
     (let st = toUpperCase (orEmpty (Check.status check));
          co = toUpperCase (orEmpty (Check.conclusion check));
          completed = (st = ''COMPLETED''
                       \<or> (orEmpty (Check.status check) = []
                           \<and> orEmpty (Check.conclusion check) \<noteq> []))
      in if \<not> completed then (p, f, q + 1)
         else if orEmpty (Check.conclusion check) = [] then (p, f, q + 1)
         else if co \<in> {''FAILURE'', ''TIMED_OUT'', ''CANCELLED'', ''ACTION_REQUIRED'',
                        ''STARTUP_FAILURE'', ''ERROR''} then (p, f + 1, q)
         else if co \<in> {''SUCCESS'', ''NEUTRAL'', ''SKIPPED''} then (p + 1, f, q)
         else (p, f + 1, q))"
  by (simp add: Let_def toUpperCase_Nil_iff toUpperCase_Nil failureConclusions_def
      successConclusions_def)

text \<open>
  Claim C7. \<open>mergeFromState\<close> returns \<open>merged\<close> whenever \<open>mergedAt\<close> holds a
  timestamp (a non-empty string) or the uppercased state is \<open>MERGED\<close>, before it looks at
  the draft flag or at the states \<open>OPEN\<close> and \<open>CLOSED\<close>; otherwise a draft gives
  \<open>draft\<close>, the state \<open>OPEN\<close> gives \<open>open\<close>, \<open>CLOSED\<close> gives \<open>closed\<close>, and
  anything else \<open>unknown\<close>. A record with \<open>mergedAt = "2024-01-01"\<close>, the draft flag
  set and state \<open>OPEN\<close> is \<open>merged\<close>.
\<close>

theorem mergeFromState_priority:
  "mergeFromState pr =
     (if truthyStr (GhPrView.mergedAt pr) \<or> toUpperCase (orEmpty (GhPrView.state pr)) = ''MERGED''
      then Merged
      else if truthyBool (GhPrView.isDraft pr) then MergeDraft
      else if toUpperCase (orEmpty (GhPrView.state pr)) = ''OPEN'' then MergeOpen
      else if toUpperCase (orEmpty (GhPrView.state pr)) = ''CLOSED'' then MergeClosed
      else MergeUnknown)
   \<and> mergeFromState (pr\<lparr>GhPrView.mergedAt := Some ''2024-01-01'', GhPrView.isDraft := Some True,
                          GhPrView.state := Some ''OPEN''\<rparr>) = Merged"
  by (simp add: mergeFromState_def Let_def truthyStr_def)

text \<open>
  Claim C8. \<open>reviewFromDecision\<close> returns \<open>approved\<close> whenever the merge status is
  \<open>merged\<close>, whatever the decision; otherwise the uppercased decision \<open>APPROVED\<close> gives
  \<open>approved\<close>, \<open>CHANGES_REQUESTED\<close> gives \<open>changes\<close>, \<open>REVIEW_REQUIRED\<close> gives
  \<open>pending\<close>, and anything else \<open>unknown\<close>. The decision \<open>CHANGES_REQUESTED\<close> on a
  merged pull request is \<open>approved\<close>, and so is \<open>APPROVED\<close> on an open one.
\<close>

theorem reviewFromDecision_merged_first:
  "reviewFromDecision decision mrg =
     (if mrg = Some Merged then ReviewApproved
      else if toUpperCase (orEmpty decision) = ''APPROVED'' then ReviewApproved
      else if toUpperCase (orEmpty decision) = ''CHANGES_REQUESTED'' then ReviewChanges
      else if toUpperCase (orEmpty decision) = ''REVIEW_REQUIRED'' then ReviewPending
      else ReviewUnknown)
   \<and> reviewFromDecision (Some ''CHANGES_REQUESTED'') (Some Merged) = ReviewApproved
   \<and> reviewFromDecision (Some ''APPROVED'') (Some MergeOpen) = ReviewApproved"
  by (simp add: reviewFromDecision_def Let_def orEmpty_def toUpperCase_def toUpperChar_def)

section \<open>Properties of the slot allocation\<close>

subsection \<open>The exact quotient\<close>

lemma share_sum:
  assumes "t \<noteq> 0" and "t = a + b + c"
  shows "share a t w + share b t w + share c t w = of_int w"
proof -
  have "share a t w + share b t w + share c t w
          = ((of_int a + of_int b + of_int c) / of_int t) * of_int w"
    by (simp add: share_def add_divide_distrib distrib_right)
  also have "of_int a + of_int b + of_int c = (of_int t :: real)"
    using assms(2) by simp
  finally show ?thesis using assms(1) by simp
qed

lemma floor3_bounds:
  fixes x y z :: real
  assumes "x + y + z = of_int w"
  shows "\<lfloor>x\<rfloor> + \<lfloor>y\<rfloor> + \<lfloor>z\<rfloor> \<le> w" and "w - 2 \<le> \<lfloor>x\<rfloor> + \<lfloor>y\<rfloor> + \<lfloor>z\<rfloor>"
proof -
  have "of_int (\<lfloor>x\<rfloor> + \<lfloor>y\<rfloor> + \<lfloor>z\<rfloor>) \<le> (of_int w :: real)"
    using assms of_int_floor_le [of x] of_int_floor_le [of y] of_int_floor_le [of z]
    unfolding of_int_add by linarith
  then show "\<lfloor>x\<rfloor> + \<lfloor>y\<rfloor> + \<lfloor>z\<rfloor> \<le> w" by (simp only: of_int_le_iff)
  have "(of_int w :: real) < of_int (\<lfloor>x\<rfloor> + \<lfloor>y\<rfloor> + \<lfloor>z\<rfloor> + 3)"
    using assms floor_correct [of x] floor_correct [of y] floor_correct [of z]
    unfolding of_int_add of_int_numeral by linarith
  then have "w < \<lfloor>x\<rfloor> + \<lfloor>y\<rfloor> + \<lfloor>z\<rfloor> + 3" by (simp only: of_int_less_iff)
  then show "w - 2 \<le> \<lfloor>x\<rfloor> + \<lfloor>y\<rfloor> + \<lfloor>z\<rfloor>" by simp
qed

lemma floorSlots_sum:
  assumes "total p \<noteq> 0" and "total p = passed p + failed p + pending p"
  shows "slotSum (floorSlots share p width) \<le> width"
    and "width - 2 \<le> slotSum (floorSlots share p width)"
  using floor3_bounds [OF share_sum [OF assms, of width]]
  by (simp_all add: slotSum_def floorSlots_def)

lemma share_nonneg: "0 \<le> c \<Longrightarrow> 0 < t \<Longrightarrow> 0 \<le> w \<Longrightarrow> 0 \<le> share c t w"
  by (simp add: share_def)

subsection \<open>The floors and the distribution loop\<close>

lemma floorSlots_nonneg:
  assumes "0 \<le> sh (passed p) (total p) width" "0 \<le> sh (failed p) (total p) width"
    "0 \<le> sh (pending p) (total p) width"
  shows "slotsNonneg (floorSlots sh p width)"
  using assms by (simp add: slotsNonneg_def floorSlots_def)

lemma addSlot_sum: "slotSum (addSlot k s) = slotSum s + 1"
  by (cases k) (simp_all add: addSlot_def slotSum_def)

lemma addSlot_nonneg: "slotsNonneg s \<Longrightarrow> slotsNonneg (addSlot k s)"
  by (cases k) (simp_all add: addSlot_def slotsNonneg_def)

text \<open>
  The loop adds slots until the width is reached or the list ends; it adds none when
  the slots already reach the width.
\<close>

lemma distribute_sum:
  "used = slotSum s \<Longrightarrow>
   slotSum (fst (distribute width items (s, used)))
     = (if width \<le> used then used else min width (used + int (length items)))"
proof (induction items arbitrary: s used)
  case Nil
  then show ?case by simp
next
  case (Cons item rest)
  show ?case
  proof (cases "used \<ge> width")
    case True
    with Cons.prems show ?thesis by simp
  next
    case False
    have "slotSum (fst (distribute width rest (addSlot (fst item) s, used + 1)))
            = (if width \<le> used + 1 then used + 1
               else min width (used + 1 + int (length rest)))"
      using Cons.prems by (intro Cons.IH) (simp add: addSlot_sum)
    with False show ?thesis by (simp add: add.assoc)
  qed
qed

lemma distribute_nonneg:
  "slotsNonneg s \<Longrightarrow> slotsNonneg (fst (distribute width items (s, used)))"
  by (induction items arbitrary: s used) (simp_all add: addSlot_nonneg)

lemma distribute_take:
  "fst (distribute width items (s, used))
     = fold addSlot (map fst (take (nat (width - used)) items)) s"
proof (induction items arbitrary: s used)
  case Nil
  then show ?case by simp
next
  case (Cons item rest)
  show ?case
  proof (cases "used \<ge> width")
    case True
    then show ?thesis by simp
  next
    case False
    then have "nat (width - used) = Suc (nat (width - (used + 1)))" by simp
    with False Cons.IH [of "addSlot (fst item) s" "used + 1"] show ?thesis by simp
  qed
qed

lemma length_insertByCmp: "length (insertByCmp cmp x xs) = Suc (length xs)"
  by (induction xs) simp_all

lemma length_sortByCmp: "length (sortByCmp cmp xs) = length xs"
  by (induction xs) (simp_all add: sortByCmp_def length_insertByCmp)

lemma length_fractions: "length (fractions sh p width s) = 3"
  by (simp add: fractions_def length_sortByCmp)

lemma fractions_keys:
  "map fst (fractions sh p width s) =
     (let fp = sh (passed p) (total p) width - of_int (passSlots s);
          ff = sh (failed p) (total p) width - of_int (failSlots s);
          fq = sh (pending p) (total p) width - of_int (pendingSlots s)
      in if ff \<le> fp
         then (if fq \<le> ff then [KeyPass, KeyFail, KeyPending]
               else if fq \<le> fp then [KeyPass, KeyPending, KeyFail]
               else [KeyPending, KeyPass, KeyFail])
         else (if fq \<le> fp then [KeyFail, KeyPass, KeyPending]
               else if fq \<le> ff then [KeyFail, KeyPending, KeyPass]
               else [KeyPending, KeyFail, KeyPass]))"
  by (simp add: fractions_def sortByCmp_def Let_def)

lemma baseline_sum_floors:
  "slotSum (baseline sh p width)
     = (if width \<le> slotSum (floorSlots sh p width) then slotSum (floorSlots sh p width)
        else min width (slotSum (floorSlots sh p width) + 3))"
proof -
  let ?s0 = "floorSlots sh p width"
  have "slotSum (fst (distribute width (fractions sh p width ?s0) (?s0, slotSum ?s0)))
          = (if width \<le> slotSum ?s0 then slotSum ?s0
             else min width (slotSum ?s0 + int (length (fractions sh p width ?s0))))"
    by (rule distribute_sum) simp
  then show ?thesis by (simp add: baseline_def Let_def slotSum_def length_fractions)
qed

lemma baseline_sum:
  assumes "total p \<noteq> 0" and "total p = passed p + failed p + pending p"
  shows "slotSum (baseline share p width) = width"
  using floorSlots_sum [OF assms, of width] by (simp add: baseline_sum_floors)

lemma baseline_nonneg:
  "slotsNonneg (floorSlots sh p width) \<Longrightarrow> slotsNonneg (baseline sh p width)"
  unfolding baseline_def Let_def by (rule distribute_nonneg)

text \<open>
  With floors that are not negative, the distribution loop leaves at least
  \<open>min width 3\<close> slots, however the quotients are rounded.
\<close>

lemma baseline_sum_ge:
  assumes "slotsNonneg (floorSlots sh p width)"
  shows "min width 3 \<le> slotSum (baseline sh p width)"
proof -
  have "0 \<le> slotSum (floorSlots sh p width)"
    using assms by (simp add: slotsNonneg_def slotSum_def)
  then show ?thesis unfolding baseline_sum_floors by (simp add: min_def)
qed

subsection \<open>\<open>borrowSlot\<close> and the two \<open>while\<close> loops\<close>

text \<open>\<open>borrowSlot\<close> for each target: only the block of the target can run.\<close>

lemma borrowSlot_KeyFail:
  "borrowSlot p KeyFail s =
     (if failed p > 0 \<and> failSlots s = 0 then
        (if pendingSlots s > 1 then s\<lparr>pendingSlots := pendingSlots s - 1, failSlots := 1\<rparr>
         else if passSlots s > 1 then s\<lparr>passSlots := passSlots s - 1, failSlots := 1\<rparr>
         else if pendingSlots s > 0 then s\<lparr>pendingSlots := pendingSlots s - 1, failSlots := 1\<rparr>
         else if passSlots s > 0 then s\<lparr>passSlots := passSlots s - 1, failSlots := 1\<rparr>
         else s\<lparr>failSlots := 1\<rparr>)
      else s)"
  by (simp add: borrowSlot_def Let_def)

lemma borrowSlot_KeyPending:
  "borrowSlot p KeyPending s =
     (if pending p > 0 \<and> pendingSlots s = 0 then
        (if passSlots s > 1 then s\<lparr>passSlots := passSlots s - 1, pendingSlots := 1\<rparr>
         else if failSlots s > 1 then s\<lparr>failSlots := failSlots s - 1, pendingSlots := 1\<rparr>
         else if passSlots s > 0 then s\<lparr>passSlots := passSlots s - 1, pendingSlots := 1\<rparr>
         else if failSlots s > 0 then s\<lparr>failSlots := failSlots s - 1, pendingSlots := 1\<rparr>
         else s\<lparr>pendingSlots := 1\<rparr>)
      else s)"
  by (simp add: borrowSlot_def Let_def)

lemma borrowSlot_KeyPass:
  "borrowSlot p KeyPass s =
     (if passed p > 0 \<and> passSlots s = 0 then
        (if pendingSlots s > 1 then s\<lparr>pendingSlots := pendingSlots s - 1, passSlots := 1\<rparr>
         else if failSlots s > 1 then s\<lparr>failSlots := failSlots s - 1, passSlots := 1\<rparr>
         else if pendingSlots s > 0 then s\<lparr>pendingSlots := pendingSlots s - 1, passSlots := 1\<rparr>
         else if failSlots s > 0 then s\<lparr>failSlots := failSlots s - 1, passSlots := 1\<rparr>
         else s\<lparr>passSlots := 1\<rparr>)
      else s)"
  by (simp add: borrowSlot_def Let_def)

lemmas borrowSlot_key = borrowSlot_KeyFail borrowSlot_KeyPending borrowSlot_KeyPass

lemma borrowSlot_sum: "1 \<le> slotSum s \<Longrightarrow> slotSum (borrowSlot p k s) = slotSum s"
  by (cases k) (simp_all add: borrowSlot_key slotSum_def)

lemma borrowSlot_nonneg: "slotsNonneg s \<Longrightarrow> slotsNonneg (borrowSlot p k s)"
  by (cases k) (simp_all add: borrowSlot_key slotsNonneg_def)

lemma borrowSlot_KeyFail_visible:
  "0 < failed p \<Longrightarrow> slotsNonneg s \<Longrightarrow> 1 \<le> failSlots (borrowSlot p KeyFail s)"
  by (simp add: borrowSlot_KeyFail slotsNonneg_def)

lemma borrowSlot_KeyPending_keeps_fail:
  "1 \<le> failSlots s \<Longrightarrow> slotsNonneg s \<Longrightarrow> (0 < pending p \<longrightarrow> 2 \<le> slotSum s)
   \<Longrightarrow> 1 \<le> failSlots (borrowSlot p KeyPending s)"
  by (auto simp add: borrowSlot_KeyPending slotsNonneg_def slotSum_def)

lemma borrowSlot_KeyPass_keeps_fail:
  "1 \<le> failSlots s \<Longrightarrow> slotsNonneg s \<Longrightarrow> (0 < passed p \<longrightarrow> 2 \<le> slotSum s)
   \<Longrightarrow> 1 \<le> failSlots (borrowSlot p KeyPass s)"
  by (auto simp add: borrowSlot_KeyPass slotsNonneg_def slotSum_def)

lemma shrinkLoop_done: "slotSum s \<le> width \<Longrightarrow> shrinkLoop width s = s"
  by (subst shrinkLoop.simps) (simp add: slotSum_def)

lemma growLoop_done: "width \<le> slotSum s \<Longrightarrow> growLoop p width s = s"
  by (subst growLoop.simps) (simp add: slotSum_def)

lemma shrinkLoop_sum:
  "3 \<le> width \<Longrightarrow> width \<le> slotSum s \<Longrightarrow> slotSum (shrinkLoop width s) = width"
proof (induction width s rule: shrinkLoop.induct)
  case (1 width s)
  show ?case
  proof (cases "passSlots s + failSlots s + pendingSlots s > width")
    case False
    with "1.prems" show ?thesis
      by (subst shrinkLoop.simps) (simp add: slotSum_def)
  next
    case over: True
    consider (q) "pendingSlots s > 1"
      | (a) "\<not> pendingSlots s > 1" "passSlots s > 1"
      | (f) "\<not> pendingSlots s > 1" "\<not> passSlots s > 1" "failSlots s > 1"
      using over "1.prems"(1) by linarith
    then show ?thesis
    proof cases
      case q
      have "slotSum (shrinkLoop width (s\<lparr>pendingSlots := pendingSlots s - 1\<rparr>)) = width"
        using over q "1.prems" by (intro "1.IH"(1)) (simp_all add: slotSum_def)
      with over q show ?thesis by (subst shrinkLoop.simps) simp
    next
      case a
      have "slotSum (shrinkLoop width (s\<lparr>passSlots := passSlots s - 1\<rparr>)) = width"
        using over a "1.prems" by (intro "1.IH"(2)) (simp_all add: slotSum_def)
      with over a show ?thesis by (subst shrinkLoop.simps) simp
    next
      case f
      have "slotSum (shrinkLoop width (s\<lparr>failSlots := failSlots s - 1\<rparr>)) = width"
        using over f "1.prems" by (intro "1.IH"(3)) (simp_all add: slotSum_def)
      with over f show ?thesis by (subst shrinkLoop.simps) simp
    qed
  qed
qed

lemma growLoop_sum: "slotSum s \<le> width \<Longrightarrow> slotSum (growLoop p width s) = width"
proof (induction p width s rule: growLoop.induct)
  case (1 p width s)
  show ?case
  proof (cases "passSlots s + failSlots s + pendingSlots s < width")
    case False
    with "1.prems" show ?thesis
      by (subst growLoop.simps) (simp add: slotSum_def)
  next
    case under: True
    show ?thesis
    proof (cases "pending p > 0")
      case q: True
      have "slotSum (growLoop p width (s\<lparr>pendingSlots := pendingSlots s + 1\<rparr>)) = width"
        using under q by (intro "1.IH"(1)) (simp_all add: slotSum_def)
      with under q show ?thesis by (subst growLoop.simps) simp
    next
      case nq: False
      show ?thesis
      proof (cases "passed p > 0")
        case a: True
        have "slotSum (growLoop p width (s\<lparr>passSlots := passSlots s + 1\<rparr>)) = width"
          using under nq a by (intro "1.IH"(2)) (simp_all add: slotSum_def)
        with under nq a show ?thesis by (subst growLoop.simps) simp
      next
        case na: False
        have "slotSum (growLoop p width (s\<lparr>failSlots := failSlots s + 1\<rparr>)) = width"
          using under nq na by (intro "1.IH"(3)) (simp_all add: slotSum_def)
        with under nq na show ?thesis by (subst growLoop.simps) simp
      qed
    qed
  qed
qed

text \<open>Neither loop takes the last slot of the failed category.\<close>

lemma shrinkLoop_keeps_fail: "1 \<le> failSlots s \<Longrightarrow> 1 \<le> failSlots (shrinkLoop width s)"
proof (induction width s rule: shrinkLoop.induct)
  case (1 width s)
  show ?case
  proof (cases "passSlots s + failSlots s + pendingSlots s > width")
    case False
    with "1.prems" show ?thesis by (subst shrinkLoop.simps) simp
  next
    case over: True
    show ?thesis
    proof (cases "pendingSlots s > 1")
      case q: True
      have "1 \<le> failSlots (shrinkLoop width (s\<lparr>pendingSlots := pendingSlots s - 1\<rparr>))"
        using over q "1.prems" by (intro "1.IH"(1)) simp_all
      with over q show ?thesis by (subst shrinkLoop.simps) simp
    next
      case nq: False
      show ?thesis
      proof (cases "passSlots s > 1")
        case a: True
        have "1 \<le> failSlots (shrinkLoop width (s\<lparr>passSlots := passSlots s - 1\<rparr>))"
          using over nq a "1.prems" by (intro "1.IH"(2)) simp_all
        with over nq a show ?thesis by (subst shrinkLoop.simps) simp
      next
        case na: False
        show ?thesis
        proof (cases "failSlots s > 1")
          case f: True
          have "1 \<le> failSlots (shrinkLoop width (s\<lparr>failSlots := failSlots s - 1\<rparr>))"
            using over nq na f by (intro "1.IH"(3)) simp_all
          with over nq na f show ?thesis by (subst shrinkLoop.simps) simp
        next
          case False
          with over nq na "1.prems" show ?thesis by (subst shrinkLoop.simps) simp
        qed
      qed
    qed
  qed
qed

lemma growLoop_keeps_fail: "1 \<le> failSlots s \<Longrightarrow> 1 \<le> failSlots (growLoop p width s)"
proof (induction p width s rule: growLoop.induct)
  case (1 p width s)
  show ?case
  proof (cases "passSlots s + failSlots s + pendingSlots s < width")
    case False
    with "1.prems" show ?thesis by (subst growLoop.simps) simp
  next
    case under: True
    show ?thesis
    proof (cases "pending p > 0")
      case q: True
      have "1 \<le> failSlots (growLoop p width (s\<lparr>pendingSlots := pendingSlots s + 1\<rparr>))"
        using under q "1.prems" by (intro "1.IH"(1)) simp_all
      with under q show ?thesis by (subst growLoop.simps) simp
    next
      case nq: False
      show ?thesis
      proof (cases "passed p > 0")
        case a: True
        have "1 \<le> failSlots (growLoop p width (s\<lparr>passSlots := passSlots s + 1\<rparr>))"
          using under nq a "1.prems" by (intro "1.IH"(2)) simp_all
        with under nq a show ?thesis by (subst growLoop.simps) simp
      next
        case na: False
        have "1 \<le> failSlots (growLoop p width (s\<lparr>failSlots := failSlots s + 1\<rparr>))"
          using under nq na "1.prems" by (intro "1.IH"(3)) simp_all
        with under nq na show ?thesis by (subst growLoop.simps) simp
      qed
    qed
  qed
qed

lemma loops_sum:
  assumes "3 \<le> width"
  shows "slotSum (growLoop p width (shrinkLoop width s)) = width"
proof (cases "width \<le> slotSum s")
  case True
  then have "slotSum (shrinkLoop width s) = width" using assms by (simp only: shrinkLoop_sum)
  then show ?thesis by (simp only: growLoop_sum order_refl)
next
  case False
  then have "shrinkLoop width s = s" by (intro shrinkLoop_done) simp
  with False show ?thesis by (simp add: growLoop_sum)
qed

text \<open>
  From width 3 on, the two \<open>while\<close> loops alone bring the sum of the slots to the width,
  whatever slots the floors, the distribution loop and the borrows leave: at the width 7 of
  \<open>ciBadge\<close> the sum does not depend on how the quotients are rounded.
\<close>

lemma allocateSlots_sum_wide: "3 \<le> width \<Longrightarrow> slotSum (allocateSlots sh p width) = width"
  unfolding allocateSlots_def Let_def by (rule loops_sum)

text \<open>
  With exact quotients and a tally whose total is the sum of its counts, the slots sum to
  the width after the distribution loop and through the three borrows, so neither
  \<open>while\<close> loop runs.
\<close>

lemma allocateSlots_borrowed:
  assumes "total p \<noteq> 0" and "total p = passed p + failed p + pending p" and "1 \<le> width"
  shows "allocateSlots share p width
           = borrowSlot p KeyPass
               (borrowSlot p KeyPending (borrowSlot p KeyFail (baseline share p width)))"
    and "slotSum (allocateSlots share p width) = width"
proof -
  let ?s1 = "baseline share p width"
  let ?s2 = "borrowSlot p KeyFail ?s1"
  let ?s3 = "borrowSlot p KeyPending ?s2"
  let ?s4 = "borrowSlot p KeyPass ?s3"
  have s1: "slotSum ?s1 = width" by (rule baseline_sum [OF assms(1,2)])
  have s2: "slotSum ?s2 = width" using s1 assms(3) by (simp only: borrowSlot_sum)
  have s3: "slotSum ?s3 = width" using s2 assms(3) by (simp only: borrowSlot_sum)
  have s4: "slotSum ?s4 = width" using s3 assms(3) by (simp only: borrowSlot_sum)
  have sh: "shrinkLoop width ?s4 = ?s4" by (rule shrinkLoop_done) (simp only: s4 order_refl)
  have gr: "growLoop p width ?s4 = ?s4" by (rule growLoop_done) (simp only: s4 order_refl)
  show a: "allocateSlots share p width = ?s4"
    unfolding allocateSlots_def Let_def by (simp only: sh gr)
  show "slotSum (allocateSlots share p width) = width" by (simp only: a s4)
qed



section \<open>The claims about the slot allocation\<close>

text \<open>
  Claim C1, as stated, fails at a tally with \<open>total = 0\<close>: \<open>ciBadge\<close> returns before
  any slot is computed and draws \<open>CI:[-------] no checks\<close>, a text with no pass, fail or
  pending glyph, so the slots do not sum to the width 7. The tally is the one that
  \<open>ciProgressFromChecks\<close> builds for a pull request without checks.
\<close>

theorem allocate_sum_counterexample:
  "ciSlots share (ciProgressFromChecks (Some [])) 7 = None
   \<and> ciBadge plain share (normalizePr ''2024-01-01T00:00:00.000Z'' noChecksView)
       = Inr ''CI:[-------] no checks''
   \<and> slotSum (glyphSlots ''CI:[-------] no checks'') \<noteq> 7"
  by (simp add: ciSlots_def ciProgressFromChecks_def ciBadge_def normalizePr_def noChecksView_def
      ciProgressFromRecord_def plain_def glyphSlots_def slotSum_def Let_def)

text \<open>
  Claim C1, amended. For every tally with \<open>total \<noteq> 0\<close> whose total is the sum of its
  three counts, and every width of at least 1, \<open>ciBadge\<close> computes slots (floors,
  distribution of the leftover slots, the three borrows, the two correction loops), and
  \<open>passSlots + failSlots + pendingSlots\<close> equals the width. This is proved for exact
  quotients; from width 3 on it holds for every value \<open>sh\<close> of the computed quotients.
\<close>

theorem allocate_sum_width:
  assumes "total p \<noteq> 0" and "total p = passed p + failed p + pending p" and "1 \<le> width"
  shows "ciSlots share p width = Some (allocateSlots share p width)
    \<and> slotSum (allocateSlots share p width) = width
    \<and> (3 \<le> width \<longrightarrow>
         ciSlots sh p width = Some (allocateSlots sh p width)
         \<and> slotSum (allocateSlots sh p width) = width)"
  using assms(1) allocateSlots_borrowed(2) [OF assms] allocateSlots_sum_wide [of width sh p]
  by (simp add: ciSlots_def)

text \<open>
  The amended C1 at the tally of the specification's scenario (2 passed, 1 failed), width 7:
  the slots are 5, 2 and 0.
\<close>

theorem allocate_sum_width_witness:
  "total (tally 2 1 0) \<noteq> 0
   \<and> total (tally 2 1 0) = passed (tally 2 1 0) + failed (tally 2 1 0) + pending (tally 2 1 0)
   \<and> (1::int) \<le> 7 \<and> (3::int) \<le> 7
   \<and> ciSlots share (tally 2 1 0) 7 = Some \<lparr>passSlots = 5, failSlots = 2, pendingSlots = 0\<rparr>
   \<and> slotSum \<lparr>passSlots = 5, failSlots = 2, pendingSlots = 0\<rparr> = 7"
proof -
  have h1: "total (tally 2 1 0) \<noteq> 0" by (simp add: tally_def)
  have h2: "total (tally 2 1 0) = passed (tally 2 1 0) + failed (tally 2 1 0) + pending (tally 2 1 0)"
    by (simp add: tally_def)
  have h3: "(1::int) \<le> 7" by simp
  have v: "allocateSlots share (tally 2 1 0) 7
             = \<lparr>passSlots = 5, failSlots = 2, pendingSlots = 0\<rparr>"
    by code_simp
  from allocate_sum_width [OF h1 h2 h3, of share] h1 h2 v show ?thesis by simp
qed

text \<open>
  Claim C2. For every tally with \<open>failed > 0\<close> (counts not negative, total their sum) and
  every width that is at least the number of categories with a nonzero count, the slots
  that \<open>ciBadge\<close> computes have \<open>failSlots \<ge> 1\<close>. This holds for exact quotients, and
  for every value \<open>sh\<close> of the computed quotients that is not negative on counts that
  are not negative.
\<close>

theorem failed_visible:
  assumes "0 \<le> passed p" and "0 < failed p" and "0 \<le> pending p"
    and "total p = passed p + failed p + pending p"
    and "nonzeroCategories p \<le> width"
  shows "ciSlots share p width = Some (allocateSlots share p width)
    \<and> 1 \<le> failSlots (allocateSlots share p width)
    \<and> ((\<forall>c. 0 \<le> c \<longrightarrow> 0 \<le> sh c (total p) width) \<longrightarrow>
         ciSlots sh p width = Some (allocateSlots sh p width)
         \<and> 1 \<le> failSlots (allocateSlots sh p width))"
proof -
  have t: "0 < total p" using assms(1-4) by simp
  have w1: "1 \<le> width" using assms(2,5) by (simp add: nonzeroCategories_def split: if_splits)
  have wq: "0 < pending p \<longrightarrow> 2 \<le> width"
    using assms(2,5) by (simp add: nonzeroCategories_def split: if_splits)
  have wp: "0 < passed p \<longrightarrow> 2 \<le> width"
    using assms(2,5) by (simp add: nonzeroCategories_def split: if_splits)
  have gen: "1 \<le> failSlots (allocateSlots q p width)"
    if nn: "\<forall>c. 0 \<le> c \<longrightarrow> 0 \<le> q c (total p) width" for q :: quotient
  proof -
    let ?s1 = "baseline q p width"
    let ?s2 = "borrowSlot p KeyFail ?s1"
    let ?s3 = "borrowSlot p KeyPending ?s2"
    let ?s4 = "borrowSlot p KeyPass ?s3"
    have "slotsNonneg (floorSlots q p width)"
      using nn assms(1-3) by (intro floorSlots_nonneg) simp_all
    then have n1: "slotsNonneg ?s1" and ge: "min width 3 \<le> slotSum ?s1"
      by (rule baseline_nonneg, rule baseline_sum_ge)
    have one: "1 \<le> slotSum ?s1" using ge w1 by linarith
    have two: "2 \<le> width \<longrightarrow> 2 \<le> slotSum ?s1" using ge by linarith
    have s2: "slotSum ?s2 = slotSum ?s1" using one by (rule borrowSlot_sum)
    have s3: "slotSum ?s3 = slotSum ?s1" using one s2 by (simp only: borrowSlot_sum)
    have n2: "slotsNonneg ?s2" using n1 by (rule borrowSlot_nonneg)
    have n3: "slotsNonneg ?s3" using n2 by (rule borrowSlot_nonneg)
    have f2: "1 \<le> failSlots ?s2" using assms(2) n1 by (rule borrowSlot_KeyFail_visible)
    have f3: "1 \<le> failSlots ?s3"
      using f2 n2 wq s2 two by (intro borrowSlot_KeyPending_keeps_fail) simp_all
    have f4: "1 \<le> failSlots ?s4"
      using f3 n3 wp s3 two by (intro borrowSlot_KeyPass_keeps_fail) simp_all
    have "1 \<le> failSlots (growLoop p width (shrinkLoop width ?s4))"
      using f4 by (intro growLoop_keeps_fail shrinkLoop_keeps_fail)
    then show ?thesis by (simp add: allocateSlots_def Let_def)
  qed
  have ex: "\<forall>c. 0 \<le> c \<longrightarrow> 0 \<le> share c (total p) width"
    using t w1 by (simp add: share_nonneg)
  from gen [of share, OF ex] gen [of sh] t show ?thesis by (simp add: ciSlots_def)
qed

text \<open>
  C2 at a tally with 20 passed, 1 failed and 20 pending checks and width 3, the number of
  its nonzero categories: the distribution loop leaves the failed category without a slot,
  and the borrow gives it one.
\<close>

theorem failed_visible_witness:
  "0 \<le> passed (tally 20 1 20) \<and> 0 < failed (tally 20 1 20) \<and> 0 \<le> pending (tally 20 1 20)
   \<and> total (tally 20 1 20) = passed (tally 20 1 20) + failed (tally 20 1 20) + pending (tally 20 1 20)
   \<and> nonzeroCategories (tally 20 1 20) \<le> 3
   \<and> 0 \<le> share 20 (total (tally 20 1 20)) 3 \<and> 0 \<le> share 1 (total (tally 20 1 20)) 3
   \<and> baseline share (tally 20 1 20) 3 = \<lparr>passSlots = 2, failSlots = 0, pendingSlots = 1\<rparr>
   \<and> ciSlots share (tally 20 1 20) 3 = Some \<lparr>passSlots = 1, failSlots = 1, pendingSlots = 1\<rparr>
   \<and> 1 \<le> failSlots (allocateSlots share (tally 20 1 20) 3)"
proof -
  have h1: "0 \<le> passed (tally 20 1 20)" by (simp add: tally_def)
  have h2: "0 < failed (tally 20 1 20)" by (simp add: tally_def)
  have h3: "0 \<le> pending (tally 20 1 20)" by (simp add: tally_def)
  have h4: "total (tally 20 1 20)
              = passed (tally 20 1 20) + failed (tally 20 1 20) + pending (tally 20 1 20)"
    by (simp add: tally_def)
  have h5: "nonzeroCategories (tally 20 1 20) \<le> 3" by (simp add: tally_def nonzeroCategories_def)
  have h6: "\<forall>c. 0 \<le> c \<longrightarrow> 0 \<le> share c (total (tally 20 1 20)) 3"
    by (simp add: share_nonneg tally_def)
  have b: "baseline share (tally 20 1 20) 3 = \<lparr>passSlots = 2, failSlots = 0, pendingSlots = 1\<rparr>"
    by code_simp
  have v: "allocateSlots share (tally 20 1 20) 3
             = \<lparr>passSlots = 1, failSlots = 1, pendingSlots = 1\<rparr>"
    by code_simp
  from failed_visible [OF h1 h2 h3 h4 h5, of share] h6
  have "1 \<le> failSlots (allocateSlots share (tally 20 1 20) 3)" by blast
  with h1 h2 h3 h4 h5 h6 b v show ?thesis by (simp add: ciSlots_def tally_def)
qed

text \<open>
  The calls of \<open>borrowSlot\<close> are those of \<open>allocateSlots\<close>.
\<close>

lemma allocateSlots_borrowCalls:
  "map fst (borrowCalls sh p width) = [KeyFail, KeyPending, KeyPass]
   \<and> allocateSlots sh p width
       = growLoop p width
           (shrinkLoop width (borrowSlot p KeyPass (snd (last (borrowCalls sh p width)))))"
  by (simp add: borrowCalls_def allocateSlots_def Let_def)





text \<open>
  Claim C9. For every width, a tally with \<open>total = 0\<close> gets no slots: \<open>ciBadge\<close>
  returns before the floors, the distribution, the borrows and the correction loops. It
  draws the dimmed text \<open>CI:[-------] no checks\<close>, which shows zero pass, zero fail and
  zero pending glyphs.
\<close>

theorem ciBadge_no_checks:
  "(total p = 0 \<longrightarrow> ciSlots sh p width = None)
   \<and> (total (ciProgressFromRecord pr) = 0 \<longrightarrow>
        ciBadge fg sh pr = Inr (fg ''dim'' ''CI:[-------]'' @ '' '' @ fg ''dim'' ''no checks'')
        \<and> ciBadge plain sh pr = Inr ''CI:[-------] no checks'')
   \<and> glyphSlots ''CI:[-------] no checks'' = \<lparr>passSlots = 0, failSlots = 0, pendingSlots = 0\<rparr>"
  by (simp add: ciSlots_def ciBadge_def plain_def glyphSlots_def Let_def)

text \<open>C9 at the record of a pull request without checks.\<close>

theorem ciBadge_no_checks_witness:
  "total (ciProgressFromRecord (normalizePr ''2024-01-01T00:00:00.000Z'' noChecksView)) = 0
   \<and> ciSlots share (ciProgressFromRecord (normalizePr ''2024-01-01T00:00:00.000Z'' noChecksView)) 7
       = None
   \<and> ciBadge plain share (normalizePr ''2024-01-01T00:00:00.000Z'' noChecksView)
       = Inr ''CI:[-------] no checks''"
proof -
  let ?pr = "normalizePr ''2024-01-01T00:00:00.000Z'' noChecksView"
  have h: "total (ciProgressFromRecord ?pr) = 0"
    by (simp add: ciProgressFromRecord_def normalizePr_def noChecksView_def
        ciProgressFromChecks_def Let_def)
  from ciBadge_no_checks [of "ciProgressFromRecord ?pr" share 7 ?pr plain] h
  show ?thesis by (simp add: plain_def)
qed

text \<open>
  Claim C10. Whatever the computed quotients \<open>sh\<close>, the slots after the distribution
  loop are the floors plus one slot for each of the first \<open>width - (sum of the floors)\<close>
  keys of the sorted remainder list. In that list a category stands before another of equal
  remainder in the order pass, fail, pending of the list's construction; the list is given
  in full by comparisons of the three remainders, so the allocation depends on no further
  choice.
\<close>

theorem leftover_order:
  "(let s0 = floorSlots sh p width;
        fp = sh (passed p) (total p) width - of_int (passSlots s0);
        ff = sh (failed p) (total p) width - of_int (failSlots s0);
        fq = sh (pending p) (total p) width - of_int (pendingSlots s0);
        keys = map fst (fractions sh p width s0)
    in baseline sh p width = fold addSlot (take (nat (width - slotSum s0)) keys) s0
       \<and> (fp = ff \<longrightarrow> precedes KeyPass KeyFail keys)
       \<and> (ff = fq \<longrightarrow> precedes KeyFail KeyPending keys)
       \<and> (fp = fq \<longrightarrow> precedes KeyPass KeyPending keys)
       \<and> (fp = ff \<and> ff = fq \<longrightarrow> keys = [KeyPass, KeyFail, KeyPending])
       \<and> keys =
           (if ff \<le> fp
            then (if fq \<le> ff then [KeyPass, KeyFail, KeyPending]
                  else if fq \<le> fp then [KeyPass, KeyPending, KeyFail]
                  else [KeyPending, KeyPass, KeyFail])
            else (if fq \<le> fp then [KeyFail, KeyPass, KeyPending]
                  else if fq \<le> ff then [KeyFail, KeyPending, KeyPass]
                  else [KeyPending, KeyFail, KeyPass])))"
proof -
  have b: "baseline sh p width
             = fold addSlot (take (nat (width - slotSum (floorSlots sh p width)))
                 (map fst (fractions sh p width (floorSlots sh p width)))) (floorSlots sh p width)"
    by (simp add: baseline_def Let_def distribute_take slotSum_def take_map)
  show ?thesis
    unfolding Let_def
    apply (intro conjI)
         apply (rule b)
        apply (simp add: fractions_keys Let_def precedes_def)
       apply (simp add: fractions_keys Let_def precedes_def)
      apply (simp add: fractions_keys Let_def precedes_def)
     apply (simp add: fractions_keys Let_def)
    apply (simp add: fractions_keys Let_def)
    done
qed

text \<open>
  C10 with exact quotients at the tally with one check of each kind, where the three
  remainders are all \<open>1/3\<close>: at width 7 the one leftover slot goes to the passed
  category, at width 8 the two leftover slots go to the passed and the failed category.
\<close>

theorem leftover_order_witness:
  "floorSlots share (tally 1 1 1) 7 = \<lparr>passSlots = 2, failSlots = 2, pendingSlots = 2\<rparr>
   \<and> share 1 3 7 - 2 = 1 / 3
   \<and> map fst (fractions share (tally 1 1 1) 7 (floorSlots share (tally 1 1 1) 7))
       = [KeyPass, KeyFail, KeyPending]
   \<and> baseline share (tally 1 1 1) 7 = \<lparr>passSlots = 3, failSlots = 2, pendingSlots = 2\<rparr>
   \<and> baseline share (tally 1 1 1) 8 = \<lparr>passSlots = 3, failSlots = 3, pendingSlots = 2\<rparr>"
proof -
  have f7: "floorSlots share (tally 1 1 1) 7 = \<lparr>passSlots = 2, failSlots = 2, pendingSlots = 2\<rparr>"
    by (simp add: floorSlots_def tally_def share_def)
  have f8: "floorSlots share (tally 1 1 1) 8 = \<lparr>passSlots = 2, failSlots = 2, pendingSlots = 2\<rparr>"
    by (simp add: floorSlots_def tally_def share_def)
  have sh: "share 1 3 7 - 2 = 1 / 3" by (simp add: share_def)
  have t: "passed (tally 1 1 1) = 1" "failed (tally 1 1 1) = 1" "pending (tally 1 1 1) = 1"
    "total (tally 1 1 1) = 3" by (simp_all add: tally_def)
  from leftover_order [of share "tally 1 1 1" 7] leftover_order [of share "tally 1 1 1" 8]
  show ?thesis
    unfolding Let_def f7 f8 t using sh
    by (simp add: slotSum_def addSlot_def)
qed

end
